theory Spec2Isabelle
  imports Complex_Main "HOL-Library.Word"
begin

section \<open>The eth protocol message registry (class EthProtocol)\<close>

subsection \<open>Buffers and big numbers\<close>

text \<open>
  A Node \<open>Buffer\<close> is a list of bytes. A \<open>BN\<close> is an arbitrary-precision integer; the
  request id counter and the block numbers a caller passes to \<open>encode\<close> are never
  negative, so they are \<open>nat\<close>; a \<open>BN\<close> that \<open>decode\<close> builds from a JavaScript number
  may be negative and is an \<open>int\<close>. A JavaScript \<open>number\<close> field (\<open>max\<close>, \<open>skip\<close>) is
  an \<open>int\<close>: its type admits negative values.
\<close>

type_synonym byte = "8 word"
type_synonym Buffer = "byte list"

text \<open>
  Modelled from the spec: \<open>BN.toArrayLike(Buffer)\<close> and \<open>new BN(buffer)\<close> belong to the
  bn.js library, which is not part of the sources. The spec fixes integers as big-endian
  byte strings without leading zero bytes; \<open>toArrayLike\<close> writes the number zero as the
  single byte 0.
\<close>

fun be_bytes :: "nat \<Rightarrow> Buffer" where
  "be_bytes n = (if n = 0 then [] else be_bytes (n div 256) @ [of_nat (n mod 256)])"

declare be_bytes.simps [simp del]

definition toArrayLike_Buffer :: "nat \<Rightarrow> Buffer" where
  "toArrayLike_Buffer n = (if n = 0 then [0] else be_bytes n)"

definition new_BN :: "Buffer \<Rightarrow> nat" where
  "new_BN buf = foldl (\<lambda>acc b. acc * 256 + unat b) 0 buf"

text \<open>
  What \<open>encode\<close> returns and \<open>decode\<close> receives: nested JavaScript arrays whose leaves
  are buffers or numbers (the RLP serialisation happens in the transport).
\<close>

datatype payload = Buf Buffer | Num int | Arr "payload list"

subsection \<open>JavaScript values in the decoder\<close>










subsection \<open>Request options\<close>

datatype BN_or_Buffer = IsBN nat | IsBuffer Buffer

record GetBlockHeadersOpts =
  gbh_reqId :: "nat option"
  gbh_block :: BN_or_Buffer
  gbh_max :: int
  gbh_skip :: "int option"
  gbh_reverse :: "bool option"

record GetBlockBodiesOpts =
  gbb_reqId :: "nat option"
  gbb_hashes :: "Buffer list"

record GetPooledTransactionsOpts =
  gpt_reqId :: "nat option"
  gpt_hashes :: "Buffer list"



subsection \<open>The request id\<close>

text \<open>
  \<open>const id = new BN(0)\<close> is one counter of the module, shared by the three request
  encoders; it is threaded through them here. The expression
  \<open>reqId === undefined ? id.iaddn(1) : new BN(reqId)\<close> adds one to the counter in place
  and yields the counter, or yields the caller's id and leaves the counter alone.
  The functions return the value and the new counter.
\<close>

definition id_initial :: nat where
  "id_initial = 0"

definition next_reqId :: "nat option \<Rightarrow> nat \<Rightarrow> nat \<times> nat" where
  "next_reqId reqId idc = (case reqId of None \<Rightarrow> (idc + 1, idc + 1) | Some r \<Rightarrow> (r, idc))"

subsection \<open>Encoders and decoders\<close>

definition encode_GetBlockHeaders :: "GetBlockHeadersOpts \<Rightarrow> nat \<Rightarrow> payload \<times> nat" where
  "encode_GetBlockHeaders opts idc =
     (let (r, idc') = next_reqId (gbh_reqId opts) idc;
          skip = (case gbh_skip opts of None \<Rightarrow> 0 | Some k \<Rightarrow> k);
          reverse = (case gbh_reverse opts of None \<Rightarrow> False | Some b \<Rightarrow> b)
      in (Arr [Buf (toArrayLike_Buffer r),
               Arr [(case gbh_block opts of
                       IsBN n \<Rightarrow> Buf (toArrayLike_Buffer n)
                     | IsBuffer b \<Rightarrow> Buf b),
                    Num (gbh_max opts),
                    Num skip,
                    Num (if \<not> reverse then 0 else 1)]],
          idc'))"



definition encode_GetBlockBodies :: "GetBlockBodiesOpts \<Rightarrow> nat \<Rightarrow> payload \<times> nat" where
  "encode_GetBlockBodies opts idc =
     (let (r, idc') = next_reqId (gbb_reqId opts) idc
      in (Arr [Buf (toArrayLike_Buffer r), Arr (map Buf (gbb_hashes opts))], idc'))"

definition encode_GetPooledTransactions ::
    "GetPooledTransactionsOpts \<Rightarrow> nat \<Rightarrow> payload \<times> nat" where
  "encode_GetPooledTransactions opts idc =
     (let (r, idc') = next_reqId (gpt_reqId opts) idc
      in (Arr [Buf (toArrayLike_Buffer r), Arr (map Buf (gpt_hashes opts))], idc'))"

text \<open>A request of one of the three kinds, and a sequence of them encoded in order.\<close>

datatype request =
    GetBlockHeaders GetBlockHeadersOpts
  | GetBlockBodies GetBlockBodiesOpts
  | GetPooledTransactions GetPooledTransactionsOpts

fun request_reqId :: "request \<Rightarrow> nat option" where
  "request_reqId (GetBlockHeaders opts) = gbh_reqId opts"
| "request_reqId (GetBlockBodies opts) = gbb_reqId opts"
| "request_reqId (GetPooledTransactions opts) = gpt_reqId opts"

fun encode_request :: "request \<Rightarrow> nat \<Rightarrow> payload \<times> nat" where
  "encode_request (GetBlockHeaders opts) idc = encode_GetBlockHeaders opts idc"
| "encode_request (GetBlockBodies opts) idc = encode_GetBlockBodies opts idc"
| "encode_request (GetPooledTransactions opts) idc = encode_GetPooledTransactions opts idc"

fun encode_all :: "request list \<Rightarrow> nat \<Rightarrow> payload list \<times> nat" where
  "encode_all [] idc = ([], idc)"
| "encode_all (r # rs) idc =
     (let (p, idc') = encode_request r idc;
          (ps, idc'') = encode_all rs idc'
      in (p # ps, idc''))"

text \<open>The request id a message carries: its first element, read back as a number.\<close>

fun payload_reqId :: "payload \<Rightarrow> nat option" where
  "payload_reqId (Arr (Buf r # _)) = Some (new_BN r)"
| "payload_reqId _ = None"

subsection \<open>Protocol versions\<close>

text \<open>\<open>get versions(): number[] { return [66] }\<close>\<close>

definition versions :: "nat list" where
  "versions = [66]"

section \<open>The miner (class Miner)\<close>

subsection \<open>Collaborators\<close>

text \<open>
  The miner reads its surroundings through \<open>config\<close>, \<open>synchronizer\<close> and the VM. What
  it reads during one call is gathered in \<open>Env\<close>; none of these classes is part of the
  sources, so their answers are parameters. Gas amounts and block numbers are \<open>BN\<close>
  values, hence \<open>int\<close> (\<open>gasLimit.subn(21000)\<close> may be negative). Logger calls have no
  effect on the miner and are left out. \<open>config.accounts[0]\<close> is the signer; only the
  answers of the Clique queries about it are read.
\<close>

datatype ConsensusType = ProofOfAuthority | ProofOfWork

record BlockHeader =
  number :: int
  gasLimit :: int
  timestamp :: int

record HeaderData =
  hd_number :: int
  hd_difficulty :: "int option"
  hd_gasLimit :: int
  hd_baseFeePerGas :: "int option"

record Tx =
  tx_hash :: nat
  tx_gasLimit :: int

record BlockBuilder =
  bb_header :: HeaderData
  gasUsed :: int
  bb_transactions :: "Tx list"

record Block =
  header :: HeaderData
  transactions :: "Tx list"

record Env =
  mine :: bool
  consensusType :: ConsensusType
  cliqueSignerInTurn :: bool
  cliqueActiveSigners :: nat
  cliqueCheckRecentlySigned :: bool
  Math_random :: rat
  Date_now :: int
  latest :: BlockHeader
  calcNextBaseFee :: "BlockHeader \<Rightarrow> int"
  londonHardforkBlock :: "int option"
  initialBaseFee :: int
  isActivatedEIP1559 :: bool
  txsByPriceAndNonce :: "int option \<Rightarrow> Tx list"
  runTx :: "Tx \<Rightarrow> BlockBuilder \<Rightarrow> string + int"

text \<open>
  Modelled from the spec: the block builder of the VM package is not part of the sources.
  \<open>buildBlock\<close> opens a builder on the given header data; \<open>addTransaction\<close> signals the
  gas-limit error when \<open>tx.gasLimit > gasLimit - gasUsed\<close>, otherwise executes the
  transaction and, on success, appends it and adds its gas to \<open>gasUsed\<close>, on failure
  reports the error and changes nothing; \<open>build\<close> seals the pending header with the
  accepted transactions.
\<close>

definition gasLimitExceeded :: string where
  "gasLimitExceeded = ''tx has a higher gas limit than the remaining gas in the block''"

definition buildBlock :: "HeaderData \<Rightarrow> BlockBuilder" where
  "buildBlock headerData = \<lparr>bb_header = headerData, gasUsed = 0, bb_transactions = []\<rparr>"

definition addTransaction :: "Env \<Rightarrow> Tx \<Rightarrow> BlockBuilder \<Rightarrow> string + BlockBuilder" where
  "addTransaction env tx b =
     (if tx_gasLimit tx > hd_gasLimit (bb_header b) - gasUsed b then Inl gasLimitExceeded
      else case runTx env tx b of
             Inl message \<Rightarrow> Inl message
           | Inr gas \<Rightarrow> Inr (b\<lparr>gasUsed := gasUsed b + gas,
                                bb_transactions := bb_transactions b @ [tx]\<rparr>))"

definition build :: "BlockBuilder \<Rightarrow> Block" where
  "build b = \<lparr>header = bb_header b, transactions = bb_transactions b\<rparr>"

subsection \<open>State\<close>

text \<open>
  The fields of the miner, and the parts of the runtime it acts on: the listeners of
  \<open>Event.CHAIN_UPDATED\<close> on \<open>config.events\<close>, the pending timers, the \<open>interrupt\<close>
  variables captured by \<open>setInterrupt\<close> closures, and the calls made to the synchronizer
  and the transaction pool, in order.

  A listener is a function object. \<open>f.bind(this)\<close> makes a new function object at every
  evaluation, and \<open>removeListener\<close> compares function objects by identity, so a listener
  carries the identity it received when it was bound together with what it runs.
  Every timer of the miner runs \<open>assembleBlock\<close>; a pending timer is its handle and delay.
  A call of \<open>queueNextAssembly\<close> that is suspended at its \<open>await\<close> is kept with the
  value of its local \<open>timeout\<close>.
\<close>

datatype handler = ChainUpdated | SetInterrupt nat

type_synonym listener = "nat \<times> handler"

datatype action = ChainUpdatedEmitted | HandleNewBlock Block | RemoveNewBlockTxs Block

record State =
  assembling :: bool
  period :: int
  running :: bool
  nextAssemblyTimeoutId :: "nat option"
  listeners :: "listener list"
  nextFn :: nat
  timers :: "(nat \<times> rat) list"
  nextTimer :: nat
  suspended :: "rat list"
  cells :: "nat \<Rightarrow> bool"
  nextCell :: nat
  trace :: "action list"

text \<open>
  The constructor; its argument is \<open>consensusConfig().period\<close>, in seconds, when the
  chain defines one.
\<close>

definition DEFAULT_PERIOD :: int where
  "DEFAULT_PERIOD = 15"

definition Miner_new :: "int option \<Rightarrow> State" where
  "Miner_new consensusPeriod =
     \<lparr>assembling = False,
      period = (case consensusPeriod of None \<Rightarrow> DEFAULT_PERIOD | Some p \<Rightarrow> p) * 1000,
      running = False,
      nextAssemblyTimeoutId = None,
      listeners = [],
      nextFn = 0,
      timers = [],
      nextTimer = 0,
      suspended = [],
      cells = (\<lambda>_. False),
      nextCell = 0,
      trace = []\<rparr>"

subsection \<open>Event emitter and timers\<close>

definition bind_fn :: "handler \<Rightarrow> State \<Rightarrow> listener \<times> State" where
  "bind_fn h s = ((nextFn s, h), s\<lparr>nextFn := nextFn s + 1\<rparr>)"

definition on_CHAIN_UPDATED :: "listener \<Rightarrow> State \<Rightarrow> State" where
  "on_CHAIN_UPDATED l s = s\<lparr>listeners := listeners s @ [l]\<rparr>"

text \<open>Node removes the most recently added instance of the given function object.\<close>

definition removeListener :: "listener \<Rightarrow> State \<Rightarrow> State" where
  "removeListener l s = s\<lparr>listeners := rev (remove1 l (rev (listeners s)))\<rparr>"

definition clearTimeout :: "nat \<Rightarrow> State \<Rightarrow> State" where
  "clearTimeout t s = s\<lparr>timers := filter (\<lambda>(i, d). i \<noteq> t) (timers s)\<rparr>"

definition setTimeout :: "rat \<Rightarrow> State \<Rightarrow> nat \<times> State" where
  "setTimeout delay s =
     (nextTimer s, s\<lparr>timers := timers s @ [(nextTimer s, delay)], nextTimer := nextTimer s + 1\<rparr>)"

subsection \<open>queueNextAssembly, chainUpdated, start, stop\<close>

text \<open>
  \<open>queueNextAssembly\<close> is asynchronous. It runs without interruption up to its only
  \<open>await\<close>, the Clique query \<open>cliqueSignerInTurn\<close>, which it reaches on a
  proof-of-authority chain only, after \<open>clearTimeout\<close> and before \<open>setTimeout\<close>. There
  the call is suspended and control returns to the caller; anything may happen before the
  call resumes. On another chain the call reaches no \<open>await\<close> and sets the timer before
  it returns.

  \<open>queueNextAssembly\<close> below is the call up to that point: on a proof-of-authority chain
  it leaves the call among the suspended ones. \<open>queueNextAssembly_resume\<close> is the rest of
  the body (lines 67 to 73), for the suspended call at position \<open>i\<close>: the query has
  answered, the answer, the signer count and the random number are read from the
  surroundings at that moment. \<open>Math.random() * signerCount * 500\<close> is a rational
  number; the delay of a timer is not rounded.
\<close>

definition queueNextAssembly :: "Env \<Rightarrow> rat option \<Rightarrow> State \<Rightarrow> State" where
  "queueNextAssembly env timeout s =
     (let s1 = (case nextAssemblyTimeoutId s of
                  Some t \<Rightarrow> clearTimeout t s
                | None \<Rightarrow> s);
          timeout1 = (case timeout of Some t \<Rightarrow> t | None \<Rightarrow> of_int (period s))
      in if consensusType env = ProofOfAuthority
         then s1\<lparr>suspended := suspended s1 @ [timeout1]\<rparr>
         else (let (t, s2) = setTimeout timeout1 s1
               in s2\<lparr>nextAssemblyTimeoutId := Some t\<rparr>))"

definition queueNextAssembly_resume :: "Env \<Rightarrow> nat \<Rightarrow> State \<Rightarrow> State" where
  "queueNextAssembly_resume env i s =
     (if i < length (suspended s) then
        (let timeout1 = suspended s ! i;
             s1 = s\<lparr>suspended := take i (suspended s) @ drop (Suc i) (suspended s)\<rparr>;
             inTurn = cliqueSignerInTurn env;
             timeout2 =
               (if \<not> inTurn then
                  (let signerCount = cliqueActiveSigners env
                   in timeout1 + Math_random env * of_nat signerCount * 500)
                else timeout1);
             (t, s2) = setTimeout timeout2 s1
         in s2\<lparr>nextAssemblyTimeoutId := Some t\<rparr>)
      else s)"

text \<open>
  \<open>chainUpdated\<close> awaits \<open>queueNextAssembly\<close> as its last statement, and \<open>start\<close> calls
  it with \<open>void\<close>, without awaiting it: both return to their caller as soon as
  \<open>queueNextAssembly\<close> is suspended or has returned.
\<close>

definition chainUpdated :: "Env \<Rightarrow> State \<Rightarrow> State" where
  "chainUpdated env s =
     (let latestBlockHeader = latest env;
          target = timestamp latestBlockHeader * 1000 + period s - Date_now env;
          timeout = max 0 target
      in queueNextAssembly env (Some (of_int timeout)) s)"

definition start :: "Env \<Rightarrow> State \<Rightarrow> bool \<times> State" where
  "start env s =
     (if \<not> mine env \<or> running s then (False, s)
      else
        (let s1 = s\<lparr>running := True\<rparr>;
             (f, s2) = bind_fn ChainUpdated s1;
             s3 = on_CHAIN_UPDATED f s2;
             s4 = queueNextAssembly env None s3
         in (True, s4)))"

definition stop :: "State \<Rightarrow> bool \<times> State" where
  "stop s =
     (if \<not> running s then (False, s)
      else
        (let (f, s1) = bind_fn ChainUpdated s;
             s2 = removeListener f s1;
             s3 = (case nextAssemblyTimeoutId s2 of
                     Some t \<Rightarrow> clearTimeout t s2
                   | None \<Rightarrow> s2)
         in (True, s3\<lparr>running := False\<rparr>)))"

subsection \<open>Emitting CHAIN_UPDATED\<close>

text \<open>
  \<open>setInterrupt\<close> of the assembly whose \<open>interrupt\<close> variable is cell \<open>c\<close>, and what
  one listener does when the event is emitted. The emitter calls the listeners that were
  registered when the emission began, in the order of registration.
\<close>

definition setInterrupt :: "nat \<Rightarrow> State \<Rightarrow> State" where
  "setInterrupt c s = s\<lparr>cells := (cells s)(c := True), assembling := False\<rparr>"

fun run_listener :: "Env \<Rightarrow> listener \<Rightarrow> State \<Rightarrow> State" where
  "run_listener env (f, ChainUpdated) s = chainUpdated env s"
| "run_listener env (f, SetInterrupt c) s = setInterrupt c s"

definition emit_CHAIN_UPDATED :: "Env \<Rightarrow> State \<Rightarrow> State" where
  "emit_CHAIN_UPDATED env s =
     foldl (\<lambda>s' l. run_listener env l s') (s\<lparr>trace := trace s @ [ChainUpdatedEmitted]\<rparr>)
       (listeners s)"

subsection \<open>assembleBlock\<close>

text \<open>
  \<open>assembleBlock\<close> is asynchronous: at each \<open>await\<close> it is suspended and the event
  \<open>CHAIN_UPDATED\<close> may be emitted, any number of times, before it resumes. A schedule
  lists, for every \<open>await\<close> of one call, the emissions that happen while the call is
  suspended there: one entry for each emission, holding what the listeners then read from
  their surroundings. The entry for the \<open>await\<close> of \<open>addTransaction(txs[index])\<close> is
  the element \<open>index\<close> of a list; beyond its end no event is emitted. An emission runs the listeners registered at that moment: the
  \<open>chainUpdated\<close> listeners queue the next assembly, the \<open>setInterrupt\<close> listeners set
  their \<open>interrupt\<close> variables and clear \<open>assembling\<close>. Nothing else runs while a call
  of \<open>assembleBlock\<close> is suspended in a schedule; a call of \<open>queueNextAssembly\<close> that
  an emission leaves suspended resumes in an operation of its own (it acts on the timers
  only, which \<open>assembleBlock\<close> does not read).
\<close>

record schedule =
  at_stateManager :: "Env list"
  at_cliqueSignerInTurn :: "Env list"
  at_buildBlock :: "Env list"
  at_txsByPriceAndNonce :: "Env list"
  at_addTransaction :: "Env list list"
  at_build :: "Env list"
  at_handleNewBlock :: "Env list"

definition await :: "Env list \<Rightarrow> State \<Rightarrow> State" where
  "await emissions s = foldl (\<lambda>s' env. emit_CHAIN_UPDATED env s') s emissions"

definition nth_event :: "Env list list \<Rightarrow> nat \<Rightarrow> Env list" where
  "nth_event evs i = (if i < length evs then evs ! i else [])"

text \<open>\<open>let interrupt = false\<close>: a fresh variable, captured by \<open>setInterrupt\<close>.\<close>

definition new_interrupt :: "State \<Rightarrow> nat \<times> State" where
  "new_interrupt s =
     (nextCell s, s\<lparr>cells := (cells s)(nextCell s := False), nextCell := nextCell s + 1\<rparr>)"

text \<open>The base fee and gas limit of the new header (lines 167 to 179).\<close>

definition eip1559_fields :: "Env \<Rightarrow> int \<Rightarrow> int \<Rightarrow> int option \<times> int" where
  "eip1559_fields env num gasLim =
     (let isInitialEIP1559Block =
            (case londonHardforkBlock env of None \<Rightarrow> False | Some l \<Rightarrow> num = l)
      in if isInitialEIP1559Block then (Some (initialBaseFee env), gasLim * 2)
         else if isActivatedEIP1559 env then (Some (calcNextBaseFee env (latest env)), gasLim)
         else (None, gasLim))"

text \<open>
  The body of the loop (lines 207 to 227): \<open>try { await addTransaction(tx) } catch ...\<close>.
  It yields the new value of \<open>blockFull\<close> and the builder. \<open>gasLim\<close> is the local
  \<open>gasLimit\<close>.
\<close>

definition tryAddTransaction ::
    "Env \<Rightarrow> int \<Rightarrow> Tx \<Rightarrow> bool \<Rightarrow> BlockBuilder \<Rightarrow> bool \<times> BlockBuilder" where
  "tryAddTransaction env gasLim tx blockFull b =
     (case addTransaction env tx b of
        Inr b' \<Rightarrow> (blockFull, b')
      | Inl message \<Rightarrow>
          if message = gasLimitExceeded then
            (if gasUsed b > gasLim - 21000 then (True, b) else (blockFull, b))
          else (blockFull, b))"

text \<open>
  The loop over the eligible transactions (lines 204 to 229). \<open>c\<close> is the cell of
  \<open>interrupt\<close>. The call is suspended at \<open>await addTransaction(txs[index])\<close>.
\<close>

function assembleLoop ::
    "Env \<Rightarrow> Env list list \<Rightarrow> nat \<Rightarrow> Tx list \<Rightarrow> int \<Rightarrow> nat \<Rightarrow> bool \<Rightarrow> BlockBuilder \<Rightarrow> State
      \<Rightarrow> nat \<times> bool \<times> BlockBuilder \<times> State" where
  "assembleLoop env evs c txs gasLim index blockFull b s =
     (if index < length txs \<and> \<not> blockFull \<and> \<not> cells s c then
        (let (blockFull', b') = tryAddTransaction env gasLim (txs ! index) blockFull b;
             s' = await (nth_event evs index) s
         in assembleLoop env evs c txs gasLim (index + 1) blockFull' b' s')
      else (index, blockFull, b, s))"
  by pat_completeness auto
termination
  by (relation "measure (\<lambda>(env, evs, c, txs, gasLim, index, blockFull, b, s). length txs - index)")
     auto

declare assembleLoop.simps [simp del]

text \<open>After the loop: sealing and submission (lines 230 to 240).\<close>

definition sealAndSubmit :: "schedule \<Rightarrow> nat \<Rightarrow> BlockBuilder \<Rightarrow> State \<Rightarrow> State" where
  "sealAndSubmit sch c blockBuilder s =
     (if cells s c then s
      else
        (let block = build blockBuilder;
             s1 = await (at_build sch) s;
             s2 = s1\<lparr>assembling := False\<rparr>
         in if cells s2 c then s2
            else
              (let s3 = await (at_handleNewBlock sch)
                          (s2\<lparr>trace := trace s2 @ [HandleNewBlock block]\<rparr>);
                   s4 = s3\<lparr>trace := trace s3 @ [RemoveNewBlockTxs block]\<rparr>;
                   (f, s5) = bind_fn (SetInterrupt c) s4
               in removeListener f s5)))"

definition assembleBlock :: "Env \<Rightarrow> schedule \<Rightarrow> State \<Rightarrow> State" where
  "assembleBlock env sch s =
     (if assembling s then s
      else
        (let s1 = s\<lparr>assembling := True\<rparr>;
             (c, s2) = new_interrupt s1;
             (f, s3) = bind_fn (SetInterrupt c) s2;
             s4 = on_CHAIN_UPDATED f s3;
             parentBlockHeader = latest env;
             num = number parentBlockHeader + 1;
             gasLim = gasLimit parentBlockHeader
         in if consensusType env = ProofOfAuthority \<and> cliqueCheckRecentlySigned env
            then s4\<lparr>assembling := False\<rparr>
            else
              (let s5 = await (at_stateManager sch) s4;
                   (difficulty, s6) =
                     (if consensusType env = ProofOfAuthority
                      then (Some (if cliqueSignerInTurn env then 2 else 1),
                            await (at_cliqueSignerInTurn sch) s5)
                      else (None, s5));
                   (baseFeePerGas, gasLim') = eip1559_fields env num gasLim;
                   blockBuilder = buildBlock \<lparr>hd_number = num,
                                             hd_difficulty = difficulty,
                                             hd_gasLimit = gasLim',
                                             hd_baseFeePerGas = baseFeePerGas\<rparr>;
                   s7 = await (at_buildBlock sch) s6;
                   txs = txsByPriceAndNonce env baseFeePerGas;
                   s8 = await (at_txsByPriceAndNonce sch) s7;
                   (index, blockFull, blockBuilder', s9) =
                     assembleLoop env (at_addTransaction sch) c txs gasLim' 0 False
                       blockBuilder s8
               in sealAndSubmit sch c blockBuilder' s9)))"

text \<open>
  The same call in two parts. \<open>assembleBlock_enter\<close> is the part before the first
  \<open>await\<close> (lines 110 to 139): the call either returns (\<open>Inl\<close>: the guard, or "too
  recently signed") or is suspended at the first \<open>await\<close> (\<open>Inr\<close>, with the cell of its
  \<open>interrupt\<close> variable and the state it leaves). \<open>assembleBlock_resume\<close> is the rest,
  from that \<open>await\<close> on. Between the two, and at every later \<open>await\<close> up to
  \<open>build()\<close>, the call is in flight and the state of the miner changes by emissions
  only.
\<close>

definition assembleBlock_enter :: "Env \<Rightarrow> State \<Rightarrow> State + nat \<times> State" where
  "assembleBlock_enter env s =
     (if assembling s then Inl s
      else
        (let s1 = s\<lparr>assembling := True\<rparr>;
             (c, s2) = new_interrupt s1;
             (f, s3) = bind_fn (SetInterrupt c) s2;
             s4 = on_CHAIN_UPDATED f s3
         in if consensusType env = ProofOfAuthority \<and> cliqueCheckRecentlySigned env
            then Inl (s4\<lparr>assembling := False\<rparr>)
            else Inr (c, s4)))"

definition assembleBlock_resume :: "Env \<Rightarrow> schedule \<Rightarrow> nat \<Rightarrow> State \<Rightarrow> State" where
  "assembleBlock_resume env sch c s4 =
     (let parentBlockHeader = latest env;
          num = number parentBlockHeader + 1;
          gasLim = gasLimit parentBlockHeader;
          s5 = await (at_stateManager sch) s4;
          (difficulty, s6) =
            (if consensusType env = ProofOfAuthority
             then (Some (if cliqueSignerInTurn env then 2 else 1),
                   await (at_cliqueSignerInTurn sch) s5)
             else (None, s5));
          (baseFeePerGas, gasLim') = eip1559_fields env num gasLim;
          blockBuilder = buildBlock \<lparr>hd_number = num,
                                    hd_difficulty = difficulty,
                                    hd_gasLimit = gasLim',
                                    hd_baseFeePerGas = baseFeePerGas\<rparr>;
          s7 = await (at_buildBlock sch) s6;
          txs = txsByPriceAndNonce env baseFeePerGas;
          s8 = await (at_txsByPriceAndNonce sch) s7;
          (index, blockFull, blockBuilder', s9) =
            assembleLoop env (at_addTransaction sch) c txs gasLim' 0 False
              blockBuilder s8
      in sealAndSubmit sch c blockBuilder' s9)"

text \<open>What one call of \<open>assembleBlock\<close> adds to the record of calls and events.\<close>

definition round_trace :: "Env \<Rightarrow> schedule \<Rightarrow> State \<Rightarrow> action list" where
  "round_trace env sch s = drop (length (trace s)) (trace (assembleBlock env sch s))"

subsection \<open>Runs of the miner\<close>

text \<open>
  What can happen to a miner: its public methods are called, \<open>queueNextAssembly\<close> is
  called (by the tests, directly), the event is emitted, a suspended call of
  \<open>queueNextAssembly\<close> resumes, a pending timer fires and runs \<open>assembleBlock\<close>. A
  timer that fires is no longer pending; the miner keeps its handle.
\<close>

datatype operation =
    Start Env
  | Stop
  | QueueNextAssembly Env "rat option"
  | EmitChainUpdated Env
  | ResumeQueueNextAssembly nat Env
  | TimerFires nat Env schedule
  | AssembleBlock Env schedule

fun step :: "operation \<Rightarrow> State \<Rightarrow> State" where
  "step (Start env) s = snd (start env s)"
| "step Stop s = snd (stop s)"
| "step (QueueNextAssembly env timeout) s = queueNextAssembly env timeout s"
| "step (EmitChainUpdated env) s = emit_CHAIN_UPDATED env s"
| "step (ResumeQueueNextAssembly i env) s = queueNextAssembly_resume env i s"
| "step (TimerFires t env sch) s =
     (if t \<in> fst ` set (timers s) then assembleBlock env sch (clearTimeout t s) else s)"
| "step (AssembleBlock env sch) s = assembleBlock env sch s"

definition run :: "operation list \<Rightarrow> State \<Rightarrow> State" where
  "run ops s = foldl (\<lambda>s' op. step op s') s ops"

subsection \<open>Predicates used in the proofs\<close>

text \<open>
  From \<open>s\<close> to \<open>s'\<close> nothing but emissions of the event was recorded, the listeners
  are the same, and the \<open>interrupt\<close> variable in cell \<open>c\<close> is set if there was an
  emission or if it was set before.
\<close>

definition emissions_only :: "nat \<Rightarrow> State \<Rightarrow> State \<Rightarrow> bool" where
  "emissions_only c s s' \<longleftrightarrow>
     listeners s' = listeners s \<and>
     (\<exists>k. trace s' = trace s @ replicate k ChainUpdatedEmitted \<and> (0 < k \<longrightarrow> cells s' c)) \<and>
     (cells s c \<longrightarrow> cells s' c)"

text \<open>
  The header data that \<open>assembleBlock\<close> hands to \<open>buildBlock\<close> (lines 123 to 188),
  gathered in one term.
\<close>

definition assembled_headerData :: "Env \<Rightarrow> HeaderData" where
  "assembled_headerData env =
     \<lparr>hd_number = number (latest env) + 1,
      hd_difficulty =
        (if consensusType env = ProofOfAuthority
         then Some (if cliqueSignerInTurn env then 2 else 1) else None),
      hd_gasLimit = snd (eip1559_fields env (number (latest env) + 1) (gasLimit (latest env))),
      hd_baseFeePerGas =
        fst (eip1559_fields env (number (latest env) + 1) (gasLimit (latest env)))\<rparr>"

subsection \<open>Example inputs\<close>


text \<open>
  A proof-of-authority chain whose latest block is number 2 with gas limit 100000, london
  scheduled at block 3; the pool offers a transaction that uses all but one unit of the
  parent's gas limit, then a plain transfer, then a transaction that fails in execution.
\<close>

definition tx_fill :: Tx where
  "tx_fill = \<lparr>tx_hash = 1, tx_gasLimit = 99999\<rparr>"

definition tx_transfer :: Tx where
  "tx_transfer = \<lparr>tx_hash = 2, tx_gasLimit = 21000\<rparr>"

definition tx_failing :: Tx where
  "tx_failing = \<lparr>tx_hash = 3, tx_gasLimit = 21000\<rparr>"

definition env_example :: Env where
  "env_example =
     \<lparr>mine = True,
      consensusType = ProofOfAuthority,
      cliqueSignerInTurn = True,
      cliqueActiveSigners = 1,
      cliqueCheckRecentlySigned = False,
      Math_random = 1 / 2,
      Date_now = 20000,
      latest = \<lparr>number = 2, gasLimit = 100000, timestamp = 10\<rparr>,
      calcNextBaseFee = (\<lambda>h. 875000000),
      londonHardforkBlock = Some 3,
      initialBaseFee = 1000000000,
      isActivatedEIP1559 = False,
      txsByPriceAndNonce = (\<lambda>baseFee. [tx_fill, tx_transfer]),
      runTx = (\<lambda>tx b. if tx_hash tx = 3 then Inl ''nonce mismatch''
                       else Inr (tx_gasLimit tx))\<rparr>"

definition quiet :: schedule where
  "quiet =
     \<lparr>at_stateManager = [], at_cliqueSignerInTurn = [], at_buildBlock = [],
      at_txsByPriceAndNonce = [], at_addTransaction = [], at_build = [],
      at_handleNewBlock = []\<rparr>"

text \<open>
  A transaction that asks for 60000 gas, and the builder of a block with gas limit 100000
  in which 50000 gas is used.
\<close>

definition tx_large :: Tx where
  "tx_large = \<lparr>tx_hash = 4, tx_gasLimit = 60000\<rparr>"

definition builder_half :: BlockBuilder where
  "builder_half =
     \<lparr>bb_header = \<lparr>hd_number = 3, hd_difficulty = Some 2, hd_gasLimit = 100000,
                   hd_baseFeePerGas = None\<rparr>,
      gasUsed = 50000,
      bb_transactions = [tx_transfer]\<rparr>"

text \<open>The builder of a block with gas limit 100000 after \<open>tx_fill\<close> was added.\<close>

definition builder_filled :: BlockBuilder where
  "builder_filled =
     \<lparr>bb_header = \<lparr>hd_number = 3, hd_difficulty = Some 2, hd_gasLimit = 100000,
                   hd_baseFeePerGas = None\<rparr>,
      gasUsed = 99999,
      bb_transactions = [tx_fill]\<rparr>"

text \<open>The same schedule with one emission, while the first transaction is added.\<close>

definition interrupted :: schedule where
  "interrupted = quiet\<lparr>at_addTransaction := [[env_example]]\<rparr>"

text \<open>
  The state in which the call of \<open>assembleBlock\<close> by a new miner on \<open>env_example\<close> is
  suspended at its first \<open>await\<close>.
\<close>

definition suspended_example :: State where
  "suspended_example = snd (projr (assembleBlock_enter env_example (Miner_new None)))"

text \<open>The block that the undisturbed assembly on \<open>env_example\<close> submits.\<close>

definition block_example :: Block where
  "block_example =
     \<lparr>header = \<lparr>hd_number = 3, hd_difficulty = Some 2, hd_gasLimit = 200000,
                hd_baseFeePerGas = Some 1000000000\<rparr>,
      transactions = [tx_fill, tx_transfer]\<rparr>"

section \<open>Properties of the message registry\<close>

lemma new_BN_snoc: "new_BN (bs @ [b]) = new_BN bs * 256 + unat b"
  by (simp add: new_BN_def)

lemma new_BN_be_bytes: "new_BN (be_bytes n) = n"
proof (induction n rule: be_bytes.induct)
  case (1 n)
  show ?case
  proof (cases "n = 0")
    case True
    then show ?thesis by (simp add: be_bytes.simps new_BN_def)
  next
    case False
    have "unat (of_nat (n mod 256) :: byte) = n mod 256"
      by (simp add: unat_of_nat)
    with False 1 show ?thesis
      by (subst be_bytes.simps) (simp add: new_BN_snoc)
  qed
qed

lemma new_BN_toArrayLike: "new_BN (toArrayLike_Buffer n) = n"
  by (simp add: toArrayLike_Buffer_def new_BN_be_bytes) (simp add: new_BN_def)

lemma encode_request_auto:
  "request_reqId r = None \<Longrightarrow>
     payload_reqId (fst (encode_request r idc)) = Some (idc + 1) \<and>
     snd (encode_request r idc) = idc + 1"
  by (cases r)
     (simp_all add: encode_GetBlockHeaders_def encode_GetBlockBodies_def
        encode_GetPooledTransactions_def next_reqId_def new_BN_toArrayLike)





text \<open>
  C5, as the code has it: the counter is a \<open>BN\<close> and \<open>iaddn(1)\<close> adds one without any
  bound. Requests encoded without a caller-supplied id, starting from the counter value
  \<open>idc\<close>, carry the ids \<open>idc + 1\<close>, \<open>idc + 2\<close>, ... in order, whatever their kinds; the
  counter ends at \<open>idc\<close> plus their number. Nothing is reduced modulo \<open>2 ^ 64\<close>.
\<close>

theorem reqIds_increase_without_wrap:
  assumes "\<forall>r \<in> set reqs. request_reqId r = None"
  shows "map payload_reqId (fst (encode_all reqs idc)) =
           map Some [idc + 1 ..< idc + 1 + length reqs]
         \<and> snd (encode_all reqs idc) = idc + length reqs"
  using assms
proof (induction reqs arbitrary: idc)
  case Nil
  then show ?case by simp
next
  case (Cons r rs)
  from Cons.prems have r: "request_reqId r = None"
    and rs: "\<forall>r \<in> set rs. request_reqId r = None"
    by simp_all
  obtain p i1 where e1: "encode_request r idc = (p, i1)"
    by (cases "encode_request r idc")
  with encode_request_auto [OF r, of idc]
  have p: "payload_reqId p = Some (idc + 1)" and i1: "i1 = idc + 1"
    by simp_all
  obtain ps i2 where e2: "encode_all rs i1 = (ps, i2)"
    by (cases "encode_all rs i1")
  with Cons.IH [OF rs, of i1]
  have ps: "map payload_reqId ps = map Some [i1 + 1 ..< i1 + 1 + length rs]"
    and i2: "i2 = i1 + length rs"
    by simp_all
  have "[idc + 1 ..< idc + 1 + length (r # rs)] = (idc + 1) # [i1 + 1 ..< i1 + 1 + length rs]"
    by (subst upt_rec) (simp add: i1)
  with e1 e2 p ps i1 i2 show ?case by simp
qed

theorem reqIds_increase_without_wrap_witness:
  "map payload_reqId
     (fst (encode_all
        [GetBlockHeaders \<lparr>gbh_reqId = None, gbh_block = IsBN 5, gbh_max = 1,
                          gbh_skip = None, gbh_reverse = None\<rparr>,
         GetBlockBodies \<lparr>gbb_reqId = None, gbb_hashes = []\<rparr>,
         GetPooledTransactions \<lparr>gpt_reqId = None, gpt_hashes = []\<rparr>] (2 ^ 64 - 2)))
   = [Some (2 ^ 64 - 1), Some (2 ^ 64), Some (2 ^ 64 + 1)]"
  using reqIds_increase_without_wrap
    [of "[GetBlockHeaders \<lparr>gbh_reqId = None, gbh_block = IsBN 5, gbh_max = 1,
                           gbh_skip = None, gbh_reverse = None\<rparr>,
          GetBlockBodies \<lparr>gbb_reqId = None, gbb_hashes = []\<rparr>,
          GetPooledTransactions \<lparr>gpt_reqId = None, gpt_hashes = []\<rparr>]" "2 ^ 64 - 2"]
  by (simp add: upt_conv_Cons)

text \<open>
  C5, as the claim states it, fails: with the counter at \<open>2 ^ 64 - 1\<close> the next request
  carries the id \<open>2 ^ 64\<close>, where the claim's rule gives \<open>0\<close>.
\<close>

theorem reqId_wrap_counterexample:
  "payload_reqId
     (fst (encode_request
        (GetBlockHeaders \<lparr>gbh_reqId = None, gbh_block = IsBN 5, gbh_max = 1,
                          gbh_skip = None, gbh_reverse = None\<rparr>)
        (2 ^ 64 - 1)))
   = Some (2 ^ 64)
   \<and> (2 ^ 64 - 1 + 1) mod 2 ^ 64 = (0::nat)"
  by (simp add: encode_GetBlockHeaders_def next_reqId_def new_BN_toArrayLike)

text \<open>
  C7, as the code has it: the protocol advertises version 66 and nothing else; none of
  the legacy versions 62 to 65 is in the list.
\<close>

theorem versions_only_66: "set versions = {66}"
  by (simp add: versions_def)

text \<open>
  C7, as the claim states it, fails: the legacy version 62 is not advertised.
\<close>

theorem versions_legacy_counterexample: "62 \<notin> set versions"
  by (simp add: versions_def)




section \<open>Properties of the miner\<close>

subsection \<open>What the primitives change\<close>

lemma queueNextAssembly_frame [simp]:
  "trace (queueNextAssembly env t s) = trace s"
  "listeners (queueNextAssembly env t s) = listeners s"
  "cells (queueNextAssembly env t s) = cells s"
  "assembling (queueNextAssembly env t s) = assembling s"
  "running (queueNextAssembly env t s) = running s"
  "nextFn (queueNextAssembly env t s) = nextFn s"
  by (simp_all add: queueNextAssembly_def setTimeout_def clearTimeout_def Let_def
        split: option.splits)

lemma queueNextAssembly_queues:
  "consensusType env \<noteq> ProofOfAuthority \<Longrightarrow> timers (queueNextAssembly env t s) \<noteq> []"
  "consensusType env = ProofOfAuthority \<Longrightarrow> suspended (queueNextAssembly env t s) \<noteq> []"
  "suspended s \<noteq> [] \<Longrightarrow> suspended (queueNextAssembly env t s) \<noteq> []"
  by (simp_all add: queueNextAssembly_def setTimeout_def clearTimeout_def Let_def
        split: option.splits)

lemma queueNextAssembly_resume_timers:
  "i < length (suspended s) \<Longrightarrow> timers (queueNextAssembly_resume env i s) \<noteq> []"
  by (simp add: queueNextAssembly_resume_def setTimeout_def Let_def)

lemma chainUpdated_frame [simp]:
  "trace (chainUpdated env s) = trace s"
  "listeners (chainUpdated env s) = listeners s"
  "cells (chainUpdated env s) = cells s"
  "assembling (chainUpdated env s) = assembling s"
  by (simp_all add: chainUpdated_def Let_def)

lemma chainUpdated_queues:
  "consensusType env \<noteq> ProofOfAuthority \<Longrightarrow> timers (chainUpdated env s) \<noteq> []"
  "consensusType env = ProofOfAuthority \<Longrightarrow> suspended (chainUpdated env s) \<noteq> []"
  "suspended s \<noteq> [] \<Longrightarrow> suspended (chainUpdated env s) \<noteq> []"
  by (simp_all add: chainUpdated_def Let_def queueNextAssembly_queues)

lemma setInterrupt_frame [simp]:
  "trace (setInterrupt c s) = trace s"
  "listeners (setInterrupt c s) = listeners s"
  "timers (setInterrupt c s) = timers s"
  "suspended (setInterrupt c s) = suspended s"
  "nextAssemblyTimeoutId (setInterrupt c s) = nextAssemblyTimeoutId s"
  "cells (setInterrupt c s) c"
  "cells s c' \<Longrightarrow> cells (setInterrupt c s) c'"
  "\<not> assembling (setInterrupt c s)"
  by (simp_all add: setInterrupt_def)

lemma run_listener_frame [simp]:
  "trace (run_listener env l s) = trace s"
  "listeners (run_listener env l s) = listeners s"
  "cells s c \<Longrightarrow> cells (run_listener env l s) c"
  "\<not> assembling s \<Longrightarrow> \<not> assembling (run_listener env l s)"
  "suspended s \<noteq> [] \<Longrightarrow> suspended (run_listener env l s) \<noteq> []"
  by (cases "(env, l, s)" rule: run_listener.cases; simp add: chainUpdated_queues)+

lemma run_listener_timers:
  "consensusType env \<noteq> ProofOfAuthority \<Longrightarrow> timers s \<noteq> [] \<Longrightarrow>
     timers (run_listener env l s) \<noteq> []"
  by (cases "(env, l, s)" rule: run_listener.cases) (simp_all add: chainUpdated_queues)

lemma foldl_listeners_frame [simp]:
  "trace (foldl (\<lambda>s' l. run_listener env l s') s ls) = trace s"
  "listeners (foldl (\<lambda>s' l. run_listener env l s') s ls) = listeners s"
  by (induction ls arbitrary: s) simp_all

lemma foldl_listeners_cells:
  "cells s c \<Longrightarrow> cells (foldl (\<lambda>s' l. run_listener env l s') s ls) c"
  by (induction ls arbitrary: s) simp_all

lemma foldl_listeners_idle:
  "\<not> assembling s \<Longrightarrow> \<not> assembling (foldl (\<lambda>s' l. run_listener env l s') s ls)"
  by (induction ls arbitrary: s) simp_all

lemma foldl_listeners_suspended:
  "suspended s \<noteq> [] \<Longrightarrow> suspended (foldl (\<lambda>s' l. run_listener env l s') s ls) \<noteq> []"
  by (induction ls arbitrary: s) simp_all

lemma foldl_listeners_timers:
  "consensusType env \<noteq> ProofOfAuthority \<Longrightarrow> timers s \<noteq> [] \<Longrightarrow>
     timers (foldl (\<lambda>s' l. run_listener env l s') s ls) \<noteq> []"
  by (induction ls arbitrary: s) (simp_all add: run_listener_timers)

lemma foldl_listeners_interrupt:
  "(f, SetInterrupt c) \<in> set ls \<Longrightarrow>
     cells (foldl (\<lambda>s' l. run_listener env l s') s ls) c \<and>
     \<not> assembling (foldl (\<lambda>s' l. run_listener env l s') s ls)"
proof (induction ls arbitrary: s)
  case Nil
  then show ?case by simp
next
  case (Cons l ls)
  show ?case
  proof (cases "l = (f, SetInterrupt c)")
    case True
    then show ?thesis by (simp add: foldl_listeners_cells foldl_listeners_idle)
  next
    case False
    with Cons show ?thesis by simp
  qed
qed

lemma foldl_listeners_queues:
  assumes "(f, ChainUpdated) \<in> set ls"
  shows "consensusType env \<noteq> ProofOfAuthority \<Longrightarrow>
           timers (foldl (\<lambda>s' l. run_listener env l s') s ls) \<noteq> []"
    and "consensusType env = ProofOfAuthority \<Longrightarrow>
           suspended (foldl (\<lambda>s' l. run_listener env l s') s ls) \<noteq> []"
  using assms
proof (induction ls arbitrary: s)
  case Nil
  {
    case 1
    then show ?case by simp
  next
    case 2
    then show ?case by simp
  }
next
  case (Cons l ls)
  {
    case 1
    show ?case
    proof (cases "l = (f, ChainUpdated)")
      case True
      with 1 show ?thesis by (simp add: foldl_listeners_timers chainUpdated_queues)
    next
      case False
      with 1 Cons.IH(1) show ?thesis by simp
    qed
  next
    case 2
    show ?case
    proof (cases "l = (f, ChainUpdated)")
      case True
      with 2 show ?thesis by (simp add: foldl_listeners_suspended chainUpdated_queues)
    next
      case False
      with 2 Cons.IH(2) show ?thesis by simp
    qed
  }
qed

lemma emit_frame [simp]:
  "trace (emit_CHAIN_UPDATED env s) = trace s @ [ChainUpdatedEmitted]"
  "listeners (emit_CHAIN_UPDATED env s) = listeners s"
  by (simp_all add: emit_CHAIN_UPDATED_def)

lemma emit_cells: "cells s c \<Longrightarrow> cells (emit_CHAIN_UPDATED env s) c"
  by (simp add: emit_CHAIN_UPDATED_def foldl_listeners_cells)

lemma emit_idle: "\<not> assembling s \<Longrightarrow> \<not> assembling (emit_CHAIN_UPDATED env s)"
  by (simp add: emit_CHAIN_UPDATED_def foldl_listeners_idle)

lemma emit_interrupt:
  "(f, SetInterrupt c) \<in> set (listeners s) \<Longrightarrow> cells (emit_CHAIN_UPDATED env s) c"
  by (simp add: emit_CHAIN_UPDATED_def foldl_listeners_interrupt)

lemma emit_clears_flag:
  "(f, SetInterrupt c) \<in> set (listeners s) \<Longrightarrow> \<not> assembling (emit_CHAIN_UPDATED env s)"
  by (simp add: emit_CHAIN_UPDATED_def foldl_listeners_interrupt)

lemma emit_queues:
  assumes "(f, ChainUpdated) \<in> set (listeners s)"
  shows "consensusType env \<noteq> ProofOfAuthority \<Longrightarrow> timers (emit_CHAIN_UPDATED env s) \<noteq> []"
    and "consensusType env = ProofOfAuthority \<Longrightarrow> suspended (emit_CHAIN_UPDATED env s) \<noteq> []"
  using assms by (simp_all add: emit_CHAIN_UPDATED_def foldl_listeners_queues)

lemma queueNextAssembly_suspended_length:
  "length (suspended s) \<le> length (suspended (queueNextAssembly env t s))"
  "consensusType env = ProofOfAuthority \<Longrightarrow>
     length (suspended s) < length (suspended (queueNextAssembly env t s))"
  by (simp_all add: queueNextAssembly_def setTimeout_def clearTimeout_def Let_def
        split: option.splits)

lemma run_listener_suspended_length:
  "length (suspended s) \<le> length (suspended (run_listener env l s))"
  by (cases "(env, l, s)" rule: run_listener.cases)
     (simp_all add: chainUpdated_def Let_def queueNextAssembly_suspended_length)

lemma foldl_listeners_suspended_length:
  "length (suspended s) \<le> length (suspended (foldl (\<lambda>s' l. run_listener env l s') s ls))"
proof (induction ls arbitrary: s)
  case Nil
  show ?case by simp
next
  case (Cons l ls)
  have "length (suspended s) \<le> length (suspended (run_listener env l s))"
    by (rule run_listener_suspended_length)
  also have "\<dots> \<le> length (suspended (foldl (\<lambda>s' l. run_listener env l s')
                                      (run_listener env l s) ls))"
    by (rule Cons.IH)
  finally show ?case by simp
qed

lemma foldl_listeners_suspends:
  assumes "(f, ChainUpdated) \<in> set ls" and "consensusType env = ProofOfAuthority"
  shows "length (suspended s) < length (suspended (foldl (\<lambda>s' l. run_listener env l s') s ls))"
  using assms(1)
proof (induction ls arbitrary: s)
  case Nil
  then show ?case by simp
next
  case (Cons l ls)
  show ?case
  proof (cases "l = (f, ChainUpdated)")
    case True
    have "length (suspended s) < length (suspended (chainUpdated env s))"
      using assms(2) by (simp add: chainUpdated_def Let_def queueNextAssembly_suspended_length)
    also have "\<dots> \<le> length (suspended (foldl (\<lambda>s' l. run_listener env l s')
                                        (chainUpdated env s) ls))"
      by (rule foldl_listeners_suspended_length)
    finally show ?thesis using True by simp
  next
    case False
    with Cons.prems have "(f, ChainUpdated) \<in> set ls" by simp
    then have "length (suspended (run_listener env l s))
                 < length (suspended (foldl (\<lambda>s' l. run_listener env l s')
                                        (run_listener env l s) ls))"
      by (rule Cons.IH)
    with run_listener_suspended_length [of s env l] show ?thesis by simp
  qed
qed

lemma emit_suspends:
  assumes "(f, ChainUpdated) \<in> set (listeners s)" and "consensusType env = ProofOfAuthority"
  shows "length (suspended s) < length (suspended (emit_CHAIN_UPDATED env s))"
  using foldl_listeners_suspends
          [OF assms, of "s\<lparr>trace := trace s @ [ChainUpdatedEmitted]\<rparr>"]
  by (simp add: emit_CHAIN_UPDATED_def)

lemma emissions_only_refl: "emissions_only c s s"
  by (simp add: emissions_only_def)

lemma emissions_only_trans:
  assumes "emissions_only c s s1" and "emissions_only c s1 s2"
  shows "emissions_only c s s2"
proof -
  from assms(1) obtain k1 where k1: "trace s1 = trace s @ replicate k1 ChainUpdatedEmitted"
      "0 < k1 \<longrightarrow> cells s1 c" and l1: "listeners s1 = listeners s" and m1: "cells s c \<longrightarrow> cells s1 c"
    by (auto simp: emissions_only_def)
  from assms(2) obtain k2 where k2: "trace s2 = trace s1 @ replicate k2 ChainUpdatedEmitted"
      "0 < k2 \<longrightarrow> cells s2 c" and l2: "listeners s2 = listeners s1" and m2: "cells s1 c \<longrightarrow> cells s2 c"
    by (auto simp: emissions_only_def)
  have "trace s2 = trace s @ replicate (k1 + k2) ChainUpdatedEmitted"
    by (simp add: k1 k2 replicate_add)
  moreover have "0 < k1 + k2 \<longrightarrow> cells s2 c"
    using k1 k2 m2 by auto
  ultimately show ?thesis
    unfolding emissions_only_def using l1 l2 m1 m2 by (intro conjI exI [of _ "k1 + k2"]) simp_all
qed

lemma emit_emissions:
  assumes "(f, SetInterrupt c) \<in> set (listeners s)"
  shows "emissions_only c s (emit_CHAIN_UPDATED env s)"
proof -
  from assms have "cells (emit_CHAIN_UPDATED env s) c" by (rule emit_interrupt)
  moreover have "trace (emit_CHAIN_UPDATED env s) = trace s @ replicate 1 ChainUpdatedEmitted"
    by simp
  ultimately show ?thesis
    unfolding emissions_only_def by (intro conjI exI [of _ 1]) simp_all
qed

lemma await_emissions:
  "(f, SetInterrupt c) \<in> set (listeners s) \<Longrightarrow> emissions_only c s (await emissions s)"
proof (induction emissions arbitrary: s)
  case Nil
  then show ?case by (simp add: await_def emissions_only_refl)
next
  case (Cons env emissions)
  from Cons.prems have first: "emissions_only c s (emit_CHAIN_UPDATED env s)"
    by (rule emit_emissions)
  from Cons.prems have "(f, SetInterrupt c) \<in> set (listeners (emit_CHAIN_UPDATED env s))"
    by simp
  then have "emissions_only c (emit_CHAIN_UPDATED env s)
               (await emissions (emit_CHAIN_UPDATED env s))"
    by (rule Cons.IH)
  with first have "emissions_only c s (await emissions (emit_CHAIN_UPDATED env s))"
    by (rule emissions_only_trans)
  then show ?case by (simp add: await_def)
qed

subsection \<open>The loop\<close>

lemma assembleLoop_exit:
  assumes "\<not> (index < length txs \<and> \<not> blockFull \<and> \<not> cells s c)"
  shows "assembleLoop env evs c txs gasLim index blockFull b s = (index, blockFull, b, s)"
  by (subst assembleLoop.simps) (rule if_not_P [OF assms])

lemma assembleLoop_step:
  "index < length txs \<Longrightarrow> \<not> blockFull \<Longrightarrow> \<not> cells s c \<Longrightarrow>
     assembleLoop env evs c txs gasLim index blockFull b s =
       assembleLoop env evs c txs gasLim (index + 1)
         (fst (tryAddTransaction env gasLim (txs ! index) blockFull b))
         (snd (tryAddTransaction env gasLim (txs ! index) blockFull b))
         (await (nth_event evs index) s)"
  by (subst assembleLoop.simps) (simp add: Let_def case_prod_beta)

lemma assembleLoop_rule:
  assumes "P blockFull b s"
    and "\<And>i bf b s. P bf b s \<Longrightarrow> i < length txs \<Longrightarrow> \<not> bf \<Longrightarrow> \<not> cells s c \<Longrightarrow>
           P (fst (tryAddTransaction env gasLim (txs ! i) bf b))
             (snd (tryAddTransaction env gasLim (txs ! i) bf b))
             (await (nth_event evs i) s)"
  shows "P (fst (snd (assembleLoop env evs c txs gasLim index blockFull b s)))
           (fst (snd (snd (assembleLoop env evs c txs gasLim index blockFull b s))))
           (snd (snd (snd (assembleLoop env evs c txs gasLim index blockFull b s))))"
  using assms
proof (induction env evs c txs gasLim index blockFull b s rule: assembleLoop.induct)
  case (1 env evs c txs gasLim index blockFull b s)
  note step = "1.prems"(2)
  show ?case
  proof (cases "index < length txs \<and> \<not> blockFull \<and> \<not> cells s c")
    case False
    with "1.prems"(1) show ?thesis by (simp add: assembleLoop_exit)
  next
    case True
    let ?r = "tryAddTransaction env gasLim (txs ! index) blockFull b"
    let ?s' = "await (nth_event evs index) s"
    from True "1.prems"(1) have P': "P (fst ?r) (snd ?r) ?s'"
      by (intro step) simp_all
    have "P (fst (snd (assembleLoop env evs c txs gasLim (index + 1) (fst ?r) (snd ?r) ?s')))
            (fst (snd (snd (assembleLoop env evs c txs gasLim (index + 1) (fst ?r) (snd ?r) ?s'))))
            (snd (snd (snd (assembleLoop env evs c txs gasLim (index + 1) (fst ?r) (snd ?r) ?s'))))"
      by (rule "1.IH" [OF True refl prod.collapse refl P' step])
    with True show ?thesis by (simp add: assembleLoop_step)
  qed
qed

lemma tryAddTransaction_header:
  "bb_header (snd (tryAddTransaction env gasLim tx bf b)) = bb_header b"
  by (simp add: tryAddTransaction_def addTransaction_def split: sum.splits)

lemma assembleLoop_header:
  "bb_header (fst (snd (snd (assembleLoop env evs c txs gasLim index blockFull b s)))) = bb_header b"
  by (rule assembleLoop_rule [where P = "\<lambda>bf b' s'. bb_header b' = bb_header b"])
     (simp_all add: tryAddTransaction_header)

lemma assembleLoop_emissions:
  assumes "(f, SetInterrupt c) \<in> set (listeners s)"
  shows "emissions_only c s
           (snd (snd (snd (assembleLoop env evs c txs gasLim index blockFull b s))))"
proof (rule assembleLoop_rule [where P = "\<lambda>bf b' s'. emissions_only c s s'"])
  show "emissions_only c s s" by (rule emissions_only_refl)
next
  fix i bf b' s'
  assume e: "emissions_only c s s'"
  then have "listeners s' = listeners s" by (simp add: emissions_only_def)
  with assms have "(f, SetInterrupt c) \<in> set (listeners s')" by simp
  then have "emissions_only c s' (await (nth_event evs i) s')" by (rule await_emissions)
  with e show "emissions_only c s (await (nth_event evs i) s')" by (rule emissions_only_trans)
qed


subsection \<open>Sealing and submission\<close>

lemma await_trace:
  "trace (await emissions s) = trace s @ replicate (length emissions) ChainUpdatedEmitted"
  unfolding await_def
  by (induction emissions arbitrary: s) (simp_all add: replicate_append_same)

lemma await_listeners [simp]: "listeners (await emissions s) = listeners s"
  unfolding await_def by (induction emissions arbitrary: s) simp_all

lemma sealAndSubmit_trace:
  assumes reg: "(f, SetInterrupt c) \<in> set (listeners s)"
  shows "(\<exists>k. trace (sealAndSubmit sch c b s) = trace s @ replicate k ChainUpdatedEmitted) \<or>
         (\<not> cells s c \<and>
          (\<exists>es. trace (sealAndSubmit sch c b s) =
                  trace s @ HandleNewBlock (build b) # es @ [RemoveNewBlockTxs (build b)] \<and>
                set es \<subseteq> {ChainUpdatedEmitted}))"
proof (cases "cells s c")
  case True
  then have "trace (sealAndSubmit sch c b s) = trace s @ replicate 0 ChainUpdatedEmitted"
    by (simp add: sealAndSubmit_def)
  then show ?thesis by blast
next
  case False
  define s1 where "s1 = await (at_build sch) s"
  from reg have "emissions_only c s s1"
    unfolding s1_def by (rule await_emissions)
  then obtain k where k: "trace s1 = trace s @ replicate k ChainUpdatedEmitted"
    and set: "0 < k \<longrightarrow> cells s1 c"
    by (auto simp: emissions_only_def)
  show ?thesis
  proof (cases "cells s1 c")
    case True
    with False have "trace (sealAndSubmit sch c b s) = trace s1"
      by (simp add: sealAndSubmit_def Let_def s1_def)
    with k show ?thesis by auto
  next
    case interrupt_clear: False
    with set have "k = 0" by auto
    with k have tr1: "trace s1 = trace s" by simp
    let ?es = "replicate (length (at_handleNewBlock sch)) ChainUpdatedEmitted"
    from False interrupt_clear
    have "trace (sealAndSubmit sch c b s) =
            trace s1 @ HandleNewBlock (build b) # ?es @ [RemoveNewBlockTxs (build b)]"
      by (simp add: sealAndSubmit_def Let_def bind_fn_def removeListener_def await_trace
            s1_def [symmetric])
    moreover have "set ?es \<subseteq> {ChainUpdatedEmitted}"
      by auto
    ultimately show ?thesis using False tr1 by auto
  qed
qed

subsection \<open>One call of assembleBlock\<close>

lemma assembleBlock_busy: "assembling s \<Longrightarrow> assembleBlock env sch s = s"
  by (simp add: assembleBlock_def)

lemma assembleBlock_recently_signed:
  "\<not> assembling s \<Longrightarrow> consensusType env = ProofOfAuthority \<and> cliqueCheckRecentlySigned env \<Longrightarrow>
     trace (assembleBlock env sch s) = trace s \<and>
     timers (assembleBlock env sch s) = timers s \<and>
     nextAssemblyTimeoutId (assembleBlock env sch s) = nextAssemblyTimeoutId s"
  by (simp add: assembleBlock_def Let_def new_interrupt_def bind_fn_def on_CHAIN_UPDATED_def)

lemma assembleBlock_unfold:
  fixes env :: Env and sch :: schedule and s :: State
  assumes "\<not> assembling s"
    and "\<not> (consensusType env = ProofOfAuthority \<and> cliqueCheckRecentlySigned env)"
  defines "c \<equiv> nextCell s"
  defines "s4 \<equiv> s\<lparr>assembling := True, cells := (cells s)(nextCell s := False),
                   nextCell := nextCell s + 1, nextFn := nextFn s + 1,
                   listeners := listeners s @ [(nextFn s, SetInterrupt (nextCell s))]\<rparr>"
  defines "s6 \<equiv> (if consensusType env = ProofOfAuthority
                  then await (at_cliqueSignerInTurn sch) (await (at_stateManager sch) s4)
                  else await (at_stateManager sch) s4)"
  defines "s8 \<equiv> await (at_txsByPriceAndNonce sch) (await (at_buildBlock sch) s6)"
  defines "hdat \<equiv> assembled_headerData env"
  defines "res \<equiv> assembleLoop env (at_addTransaction sch) c
                   (txsByPriceAndNonce env (hd_baseFeePerGas hdat)) (hd_gasLimit hdat)
                   0 False (buildBlock hdat) s8"
  shows "assembleBlock env sch s =
           sealAndSubmit sch c (fst (snd (snd res))) (snd (snd (snd res)))"
  using assms(1,2)
  unfolding res_def hdat_def s8_def s6_def s4_def c_def
  by (simp add: assembleBlock_def Let_def case_prod_beta new_interrupt_def bind_fn_def
        on_CHAIN_UPDATED_def assembled_headerData_def)


lemma assembleBlock_trace_shape:
  assumes idle: "\<not> assembling s"
  shows "(\<exists>k. trace (assembleBlock env sch s) = trace s @ replicate k ChainUpdatedEmitted) \<or>
         (\<exists>blk es. trace (assembleBlock env sch s) =
                      trace s @ HandleNewBlock blk # es @ [RemoveNewBlockTxs blk] \<and>
                    set es \<subseteq> {ChainUpdatedEmitted} \<and>
                    header blk = assembled_headerData env)"
proof (cases "consensusType env = ProofOfAuthority \<and> cliqueCheckRecentlySigned env")
  case True
  from assembleBlock_recently_signed [OF idle True, of sch]
  have "trace (assembleBlock env sch s) = trace s @ replicate 0 ChainUpdatedEmitted" by simp
  then show ?thesis by blast
next
  case False
  define c where "c = nextCell s"
  define s4 where "s4 = s\<lparr>assembling := True, cells := (cells s)(nextCell s := False),
                   nextCell := nextCell s + 1, nextFn := nextFn s + 1,
                   listeners := listeners s @ [(nextFn s, SetInterrupt (nextCell s))]\<rparr>"
  define s5 where "s5 = await (at_stateManager sch) s4"
  define s6 where "s6 = (if consensusType env = ProofOfAuthority
                  then await (at_cliqueSignerInTurn sch) s5 else s5)"
  define s7 where "s7 = await (at_buildBlock sch) s6"
  define s8 where "s8 = await (at_txsByPriceAndNonce sch) s7"
  define hdat where "hdat = assembled_headerData env"
  define res where "res = assembleLoop env (at_addTransaction sch) c
                   (txsByPriceAndNonce env (hd_baseFeePerGas hdat)) (hd_gasLimit hdat)
                   0 False (buildBlock hdat) s8"
  define b9 where "b9 = fst (snd (snd res))"
  define s9 where "s9 = snd (snd (snd res))"
  have eq: "assembleBlock env sch s = sealAndSubmit sch c b9 s9"
    unfolding b9_def s9_def res_def hdat_def s8_def s7_def s6_def s5_def s4_def c_def
    using assembleBlock_unfold [OF idle False, of sch] by simp
  have reg4: "(nextFn s, SetInterrupt c) \<in> set (listeners s4)"
    by (simp add: s4_def c_def)
  have tr4: "trace s4 = trace s"
    by (simp add: s4_def)
  have e5: "emissions_only c s4 s5"
    unfolding s5_def using reg4 by (rule await_emissions)
  have reg5: "(nextFn s, SetInterrupt c) \<in> set (listeners s5)"
    using reg4 by (simp add: s5_def)
  have e6: "emissions_only c s5 s6"
    unfolding s6_def using await_emissions [OF reg5] by (simp add: emissions_only_refl)
  have reg6: "(nextFn s, SetInterrupt c) \<in> set (listeners s6)"
    using reg5 by (simp add: s6_def)
  have e7: "emissions_only c s6 s7"
    unfolding s7_def using reg6 by (rule await_emissions)
  have reg7: "(nextFn s, SetInterrupt c) \<in> set (listeners s7)"
    using reg6 by (simp add: s7_def)
  have e8: "emissions_only c s7 s8"
    unfolding s8_def using reg7 by (rule await_emissions)
  have reg8: "(nextFn s, SetInterrupt c) \<in> set (listeners s8)"
    using reg7 by (simp add: s8_def)
  have e9: "emissions_only c s8 s9"
    unfolding s9_def res_def using reg8 by (rule assembleLoop_emissions)
  have e49: "emissions_only c s4 s9"
    using e5 e6 e7 e8 e9 by (blast intro: emissions_only_trans)
  then obtain k where k: "trace s9 = trace s @ replicate k ChainUpdatedEmitted"
    and set: "0 < k \<longrightarrow> cells s9 c" and ls: "listeners s9 = listeners s4"
    by (auto simp: emissions_only_def tr4)
  from reg4 ls have reg9: "(nextFn s, SetInterrupt c) \<in> set (listeners s9)" by simp
  have hd9: "bb_header b9 = hdat"
    unfolding b9_def res_def by (simp add: assembleLoop_header buildBlock_def)
  from sealAndSubmit_trace [OF reg9, of sch b9]
  show ?thesis
  proof
    assume "\<exists>j. trace (sealAndSubmit sch c b9 s9) = trace s9 @ replicate j ChainUpdatedEmitted"
    then obtain j where "trace (sealAndSubmit sch c b9 s9) =
        trace s9 @ replicate j ChainUpdatedEmitted" ..
    with k have "trace (assembleBlock env sch s) = trace s @ replicate (k + j) ChainUpdatedEmitted"
      by (simp add: eq replicate_add)
    then show ?thesis by blast
  next
    assume "\<not> cells s9 c \<and>
          (\<exists>es. trace (sealAndSubmit sch c b9 s9) =
                  trace s9 @ HandleNewBlock (build b9) # es @ [RemoveNewBlockTxs (build b9)] \<and>
                set es \<subseteq> {ChainUpdatedEmitted})"
    then obtain es where clear: "\<not> cells s9 c"
      and tr: "trace (sealAndSubmit sch c b9 s9) =
                  trace s9 @ HandleNewBlock (build b9) # es @ [RemoveNewBlockTxs (build b9)]"
      and es: "set es \<subseteq> {ChainUpdatedEmitted}"
      by blast
    from clear set have "k = 0" by auto
    with k tr have "trace (assembleBlock env sch s) =
        trace s @ HandleNewBlock (build b9) # es @ [RemoveNewBlockTxs (build b9)]"
      by (simp add: eq)
    moreover have "header (build b9) = assembled_headerData env"
      using hd9 by (simp add: build_def hdat_def)
    ultimately show ?thesis using es by blast
  qed
qed

lemma round_trace_shape:
  "(\<exists>k. round_trace env sch s = replicate k ChainUpdatedEmitted) \<or>
   (\<exists>blk es. round_trace env sch s = HandleNewBlock blk # es @ [RemoveNewBlockTxs blk] \<and>
              set es \<subseteq> {ChainUpdatedEmitted} \<and>
              header blk = assembled_headerData env)"
proof (cases "assembling s")
  case True
  then have "round_trace env sch s = replicate 0 ChainUpdatedEmitted"
    by (simp add: round_trace_def assembleBlock_busy)
  then show ?thesis by blast
next
  case False
  from assembleBlock_trace_shape [OF False, of env sch] show ?thesis
    by (auto simp: round_trace_def)
qed

lemmas example_defs =
  Miner_new_def env_example_def interrupted_def quiet_def block_example_def builder_filled_def
  builder_half_def tx_fill_def tx_transfer_def tx_failing_def tx_large_def DEFAULT_PERIOD_def
  gasLimitExceeded_def

lemmas miner_defs =
  assembleBlock_def sealAndSubmit_def new_interrupt_def bind_fn_def on_CHAIN_UPDATED_def
  removeListener_def await_def nth_event_def eip1559_fields_def buildBlock_def build_def
  tryAddTransaction_def addTransaction_def emit_CHAIN_UPDATED_def chainUpdated_def
  queueNextAssembly_def queueNextAssembly_resume_def setTimeout_def clearTimeout_def
  setInterrupt_def start_def stop_def

lemma round_trace_interrupted:
  "round_trace env_example interrupted (Miner_new None) = [ChainUpdatedEmitted]"
  by (simp add: round_trace_def miner_defs example_defs assembleLoop.simps Let_def)

lemma round_trace_quiet:
  "round_trace env_example quiet (Miner_new None) =
     [HandleNewBlock block_example, RemoveNewBlockTxs block_example]"
  by (simp add: round_trace_def miner_defs example_defs assembleLoop.simps Let_def)

subsection \<open>Timers\<close>

lemma clearTimeout_frame [simp]:
  "listeners (clearTimeout t s) = listeners s"
  "running (clearTimeout t s) = running s"
  "trace (clearTimeout t s) = trace s"
  "nextAssemblyTimeoutId (clearTimeout t s) = nextAssemblyTimeoutId s"
  by (simp_all add: clearTimeout_def)

text \<open>
  Where \<open>queueNextAssembly\<close> reaches no \<open>await\<close>, clearing and setting are one step:
  if no timer other than the one whose handle the miner holds is pending, exactly the new
  timer is pending afterwards.
\<close>

lemma queueNextAssembly_single_timer:
  assumes "consensusType env \<noteq> ProofOfAuthority"
    and "\<forall>t \<in> fst ` set (timers s). nextAssemblyTimeoutId s = Some t"
  shows "timers (queueNextAssembly env timeout s) =
           [(nextTimer s, case timeout of Some t \<Rightarrow> t | None \<Rightarrow> of_int (period s))]"
    and "nextAssemblyTimeoutId (queueNextAssembly env timeout s) = Some (nextTimer s)"
proof -
  have "timers s = []" if "nextAssemblyTimeoutId s = None"
  proof (cases "timers s")
    case (Cons td tds)
    with assms(2) that show ?thesis by (cases td) auto
  qed simp
  moreover have "filter (\<lambda>(i, d). i \<noteq> t) (timers s) = []" if "nextAssemblyTimeoutId s = Some t" for t
    using assms(2) that by (auto simp: filter_empty_conv)
  ultimately show "timers (queueNextAssembly env timeout s) =
           [(nextTimer s, case timeout of Some t \<Rightarrow> t | None \<Rightarrow> of_int (period s))]"
    and "nextAssemblyTimeoutId (queueNextAssembly env timeout s) = Some (nextTimer s)"
    using assms(1)
    by (auto simp: queueNextAssembly_def setTimeout_def clearTimeout_def Let_def
          split: option.splits)
qed

subsection \<open>The call in two parts\<close>

lemma assembleBlock_split:
  "assembleBlock env sch s =
     (case assembleBlock_enter env s of
        Inl s' \<Rightarrow> s'
      | Inr (c, m) \<Rightarrow> assembleBlock_resume env sch c m)"
  by (simp add: assembleBlock_def assembleBlock_enter_def assembleBlock_resume_def Let_def
        case_prod_beta)

lemma await_idle: "\<not> assembling s \<Longrightarrow> \<not> assembling (await emissions s)"
  unfolding await_def by (induction emissions arbitrary: s) (simp_all add: emit_idle)

lemma assembleBlock_enter_suspended:
  assumes "assembleBlock_enter env s = Inr (c, m)"
  shows "assembling m" and "(nextFn s, SetInterrupt c) \<in> set (listeners m)"
  using assms
  by (auto simp: assembleBlock_enter_def Let_def new_interrupt_def bind_fn_def
        on_CHAIN_UPDATED_def split: if_splits)

lemma suspended_example_enter:
  "assembleBlock_enter env_example (Miner_new None) = Inr (0, suspended_example)"
  by (simp add: suspended_example_def assembleBlock_enter_def new_interrupt_def bind_fn_def
        on_CHAIN_UPDATED_def Let_def example_defs)

section \<open>The claims about the miner\<close>

text \<open>
  C1. In every call of \<open>assembleBlock\<close>: if \<open>CHAIN_UPDATED\<close> is emitted while the call
  is in flight and nothing was submitted before that emission, then the call submits
  nothing at all: \<open>handleNewBlock\<close> does not occur in what the call records. The
  emission may fall on any \<open>await\<close> of the call: before the loop, at a transaction
  boundary, or while the block is sealed.
\<close>

theorem interrupted_assembly_submits_nothing:
  assumes "round_trace env sch s = pre @ ChainUpdatedEmitted # post"
    and "\<forall>blk. HandleNewBlock blk \<notin> set pre"
  shows "\<forall>blk. HandleNewBlock blk \<notin> set (round_trace env sch s)"
  using round_trace_shape [of env sch s]
proof
  assume "\<exists>k. round_trace env sch s = replicate k ChainUpdatedEmitted"
  then show ?thesis by auto
next
  assume "\<exists>blk es. round_trace env sch s = HandleNewBlock blk # es @ [RemoveNewBlockTxs blk] \<and>
              set es \<subseteq> {ChainUpdatedEmitted} \<and> header blk = assembled_headerData env"
  then obtain blk es where "round_trace env sch s = HandleNewBlock blk # es @ [RemoveNewBlockTxs blk]"
    by blast
  with assms(1) have "pre @ ChainUpdatedEmitted # post = HandleNewBlock blk # es @ [RemoveNewBlockTxs blk]"
    by simp
  then have "HandleNewBlock blk \<in> set pre"
    by (cases pre) simp_all
  with assms(2) show ?thesis by blast
qed

theorem interrupted_assembly_submits_nothing_witness:
  "round_trace env_example interrupted (Miner_new None) = [] @ ChainUpdatedEmitted # [] \<and>
   (\<forall>blk. HandleNewBlock blk \<notin> set (round_trace env_example interrupted (Miner_new None)))"
  using interrupted_assembly_submits_nothing
    [of env_example interrupted "Miner_new None" "[]" "[]"]
  by (simp add: round_trace_interrupted)

text \<open>
  C2, as the code has it. While \<open>assembling\<close> is true, a call of \<open>assembleBlock\<close>
  returns at once and has no effect. A call that passes the guard sets the flag before its
  first \<open>await\<close>: in the state in which it is suspended there the flag is true and a
  further call has no effect. The flag does not cover the call until it returns: an
  emission of \<open>CHAIN_UPDATED\<close> while the call is suspended clears the flag
  (\<open>setInterrupt\<close>), with the call still in flight.
\<close>

theorem assembleBlock_guard_and_flag:
  "(assembling s \<longrightarrow> assembleBlock env sch s = s) \<and>
   assembleBlock env sch s =
     (case assembleBlock_enter env s of
        Inl s' \<Rightarrow> s'
      | Inr (c, m) \<Rightarrow> assembleBlock_resume env sch c m) \<and>
   (assembleBlock_enter env s = Inr (c, m) \<longrightarrow>
      assembling m \<and>
      assembleBlock env' sch' m = m \<and>
      \<not> assembling (await (e # es) m))"
proof (intro conjI impI)
  assume "assembling s"
  then show "assembleBlock env sch s = s" by (rule assembleBlock_busy)
next
  show "assembleBlock env sch s =
     (case assembleBlock_enter env s of
        Inl s' \<Rightarrow> s'
      | Inr (c, m) \<Rightarrow> assembleBlock_resume env sch c m)"
    by (rule assembleBlock_split)
next
  assume h: "assembleBlock_enter env s = Inr (c, m)"
  from h show flag: "assembling m" by (rule assembleBlock_enter_suspended)
  then show "assembleBlock env' sch' m = m" by (rule assembleBlock_busy)
  from h have "(nextFn s, SetInterrupt c) \<in> set (listeners m)"
    by (rule assembleBlock_enter_suspended)
  then have "\<not> assembling (emit_CHAIN_UPDATED e m)" by (rule emit_clears_flag)
  then have "\<not> assembling (await es (emit_CHAIN_UPDATED e m))" by (rule await_idle)
  then show "\<not> assembling (await (e # es) m)" by (simp add: await_def)
qed

theorem assembleBlock_guard_and_flag_witness:
  "assembleBlock_enter env_example (Miner_new None) = Inr (0, suspended_example) \<and>
   assembling suspended_example \<and>
   assembleBlock env_example quiet suspended_example = suspended_example \<and>
   \<not> assembling (await [env_example] suspended_example) \<and>
   assembling ((Miner_new None)\<lparr>assembling := True\<rparr>) \<and>
   assembleBlock env_example quiet ((Miner_new None)\<lparr>assembling := True\<rparr>) =
     (Miner_new None)\<lparr>assembling := True\<rparr>"
  using assembleBlock_guard_and_flag
    [of "Miner_new None" env_example quiet 0 suspended_example env_example quiet env_example "[]"]
    assembleBlock_guard_and_flag
    [of "(Miner_new None)\<lparr>assembling := True\<rparr>" env_example quiet]
  by (simp add: suspended_example_enter)

text \<open>
  C2, as the claim states it, fails: at most one assembly is in flight only until an
  emission. A new miner calls \<open>assembleBlock\<close> and the call is suspended at its first
  \<open>await\<close>; \<open>CHAIN_UPDATED\<close> is emitted; a second call is then not stopped by the
  guard, is suspended in its turn while the first is still suspended, and, run to its
  end, submits a block.
\<close>

theorem second_assembly_in_flight_counterexample:
  "\<not> isl (assembleBlock_enter env_example (Miner_new None)) \<and>
   \<not> isl (assembleBlock_enter env_example (await [env_example] suspended_example)) \<and>
   HandleNewBlock block_example \<in>
     set (trace (assembleBlock env_example quiet (await [env_example] suspended_example)))"
  by (simp add: suspended_example_def miner_defs assembleBlock_enter_def assembleLoop.simps
        example_defs Let_def)

text \<open>
  C3. In an iteration of the assembly loop in which \<open>addTransaction\<close> fails: if the error
  is the gas-limit error and the remaining gas \<open>gasLimit - gasUsed\<close> is below 21000,
  the block is marked full and the loop ends there, with the builder as it was; on any
  other error, which includes the gas-limit error with 21000 or more gas remaining, the
  transaction is skipped (the builder is as it was, \<open>blockFull\<close> stays false) and the
  loop goes on with the next transaction.
\<close>

theorem assembleLoop_error_handling:
  assumes "index < length txs" and "\<not> blockFull" and "\<not> cells s c"
    and "addTransaction env (txs ! index) b = Inl message"
  shows "(message = gasLimitExceeded \<and> gasLim - gasUsed b < 21000 \<longrightarrow>
            assembleLoop env evs c txs gasLim index blockFull b s =
              (index + 1, True, b, await (nth_event evs index) s))
       \<and> (message \<noteq> gasLimitExceeded \<longrightarrow>
            assembleLoop env evs c txs gasLim index blockFull b s =
              assembleLoop env evs c txs gasLim (index + 1) False b
                (await (nth_event evs index) s))
       \<and> (message = gasLimitExceeded \<and> 21000 \<le> gasLim - gasUsed b \<longrightarrow>
            assembleLoop env evs c txs gasLim index blockFull b s =
              assembleLoop env evs c txs gasLim (index + 1) False b
                (await (nth_event evs index) s))"
proof (intro conjI impI)
  assume h: "message = gasLimitExceeded \<and> gasLim - gasUsed b < 21000"
  then have "tryAddTransaction env gasLim (txs ! index) blockFull b = (True, b)"
    using assms(4) by (simp add: tryAddTransaction_def)
  with assms(1-3)
  have "assembleLoop env evs c txs gasLim index blockFull b s =
          assembleLoop env evs c txs gasLim (index + 1) True b (await (nth_event evs index) s)"
    by (simp add: assembleLoop_step)
  then show "assembleLoop env evs c txs gasLim index blockFull b s =
              (index + 1, True, b, await (nth_event evs index) s)"
    by (simp add: assembleLoop_exit)
next
  assume "message \<noteq> gasLimitExceeded"
  then have "tryAddTransaction env gasLim (txs ! index) blockFull b = (False, b)"
    using assms(2,4) by (simp add: tryAddTransaction_def)
  with assms(1-3)
  show "assembleLoop env evs c txs gasLim index blockFull b s =
          assembleLoop env evs c txs gasLim (index + 1) False b (await (nth_event evs index) s)"
    by (simp add: assembleLoop_step)
next
  assume "message = gasLimitExceeded \<and> 21000 \<le> gasLim - gasUsed b"
  then have "tryAddTransaction env gasLim (txs ! index) blockFull b = (False, b)"
    using assms(2,4) by (simp add: tryAddTransaction_def)
  with assms(1-3)
  show "assembleLoop env evs c txs gasLim index blockFull b s =
          assembleLoop env evs c txs gasLim (index + 1) False b (await (nth_event evs index) s)"
    by (simp add: assembleLoop_step)
qed

theorem assembleLoop_error_handling_witness:
  "addTransaction env_example ([tx_transfer, tx_fill] ! 0) builder_filled = Inl gasLimitExceeded \<and>
   assembleLoop env_example [] 0 [tx_transfer, tx_fill] 100000 0 False builder_filled (Miner_new None)
     = (1, True, builder_filled, Miner_new None) \<and>
   addTransaction env_example ([tx_failing, tx_transfer] ! 0) (buildBlock (bb_header builder_filled))
     = Inl ''nonce mismatch'' \<and>
   assembleLoop env_example [] 0 [tx_failing, tx_transfer] 100000 0 False
       (buildBlock (bb_header builder_filled)) (Miner_new None)
     = assembleLoop env_example [] 0 [tx_failing, tx_transfer] 100000 1 False
         (buildBlock (bb_header builder_filled)) (Miner_new None) \<and>
   addTransaction env_example ([tx_large, tx_transfer] ! 0) builder_half = Inl gasLimitExceeded \<and>
   assembleLoop env_example [] 0 [tx_large, tx_transfer] 100000 0 False builder_half (Miner_new None)
     = assembleLoop env_example [] 0 [tx_large, tx_transfer] 100000 1 False builder_half
         (Miner_new None)"
proof -
  have a: "addTransaction env_example ([tx_transfer, tx_fill] ! 0) builder_filled
             = Inl gasLimitExceeded"
    by (simp add: addTransaction_def example_defs)
  have b: "addTransaction env_example ([tx_failing, tx_transfer] ! 0)
             (buildBlock (bb_header builder_filled)) = Inl ''nonce mismatch''"
    by (simp add: addTransaction_def buildBlock_def example_defs)
  have d: "addTransaction env_example ([tx_large, tx_transfer] ! 0) builder_half
             = Inl gasLimitExceeded"
    by (simp add: addTransaction_def example_defs)
  have c: "\<not> cells (Miner_new None) 0"
    by (simp add: Miner_new_def)
  from assembleLoop_error_handling
         [of 0 "[tx_transfer, tx_fill]" False "Miner_new None" 0 env_example builder_filled
             gasLimitExceeded 100000 "[]", OF _ _ c a]
       assembleLoop_error_handling
         [of 0 "[tx_failing, tx_transfer]" False "Miner_new None" 0 env_example
             "buildBlock (bb_header builder_filled)" "''nonce mismatch''" 100000 "[]", OF _ _ c b]
       assembleLoop_error_handling
         [of 0 "[tx_large, tx_transfer]" False "Miner_new None" 0 env_example
             builder_half gasLimitExceeded 100000 "[]", OF _ _ c d]
       a b d
  show ?thesis
    by (simp add: await_def nth_event_def builder_filled_def builder_half_def
          gasLimitExceeded_def)
qed

text \<open>
  C4. Every block that \<open>assembleBlock\<close> submits has the number of the parent plus one;
  if that number is the london hardfork block, its base fee is the \<open>initialBaseFee\<close>
  parameter and its gas limit is twice the parent's; otherwise, if EIP-1559 is active,
  its base fee is \<open>parent.calcNextBaseFee()\<close>; otherwise it has no base fee.
\<close>

theorem assembled_block_base_fee:
  assumes "HandleNewBlock blk \<in> set (round_trace env sch s)"
  shows "hd_number (header blk) = number (latest env) + 1 \<and>
         (if londonHardforkBlock env = Some (hd_number (header blk))
          then hd_baseFeePerGas (header blk) = Some (initialBaseFee env) \<and>
               hd_gasLimit (header blk) = 2 * gasLimit (latest env)
          else if isActivatedEIP1559 env
          then hd_baseFeePerGas (header blk) = Some (calcNextBaseFee env (latest env))
          else hd_baseFeePerGas (header blk) = None)"
  using round_trace_shape [of env sch s]
proof
  assume "\<exists>k. round_trace env sch s = replicate k ChainUpdatedEmitted"
  with assms show ?thesis by auto
next
  assume "\<exists>b es. round_trace env sch s = HandleNewBlock b # es @ [RemoveNewBlockTxs b] \<and>
              set es \<subseteq> {ChainUpdatedEmitted} \<and> header b = assembled_headerData env"
  then obtain b es where rt: "round_trace env sch s = HandleNewBlock b # es @ [RemoveNewBlockTxs b]"
    and es: "set es \<subseteq> {ChainUpdatedEmitted}" and hb: "header b = assembled_headerData env"
    by blast
  from assms rt es have "blk = b" by auto
  with hb have "header blk = assembled_headerData env" by simp
  then show ?thesis
    by (cases "londonHardforkBlock env")
       (simp_all add: assembled_headerData_def eip1559_fields_def Let_def)
qed

theorem assembled_block_base_fee_witness:
  "HandleNewBlock block_example \<in> set (round_trace env_example quiet (Miner_new None)) \<and>
   londonHardforkBlock env_example = Some (hd_number (header block_example)) \<and>
   hd_baseFeePerGas (header block_example) = Some (initialBaseFee env_example) \<and>
   hd_gasLimit (header block_example) = 2 * gasLimit (latest env_example)"
  using assembled_block_base_fee [of block_example env_example quiet "Miner_new None"]
  by (simp add: round_trace_quiet) (simp add: example_defs)

text \<open>
  C6, on the code: \<open>stop\<close> after \<open>start\<close> clears \<open>running\<close>, but the listener that
  \<open>start\<close> subscribed is still subscribed: \<open>stop\<close> passes a newly bound function to
  \<open>removeListener\<close>, which is not the function object that \<open>start\<close> registered. An
  emission of \<open>CHAIN_UPDATED\<close> after \<open>stop\<close> therefore runs \<open>chainUpdated\<close>, which
  queues an assembly again: the timer is set at once, or, on a proof-of-authority chain,
  a further call of \<open>queueNextAssembly\<close> is suspended, which sets the timer when it
  resumes.
\<close>

theorem stop_leaves_listener:
  assumes "mine env" and "\<not> running s"
  shows "\<not> running (snd (stop (snd (start env s)))) \<and>
         (nextFn s, ChainUpdated) \<in> set (listeners (snd (stop (snd (start env s))))) \<and>
         (consensusType env' \<noteq> ProofOfAuthority \<longrightarrow>
            timers (emit_CHAIN_UPDATED env' (snd (stop (snd (start env s))))) \<noteq> []) \<and>
         (consensusType env' = ProofOfAuthority \<longrightarrow>
            length (suspended (snd (stop (snd (start env s)))))
              < length (suspended (emit_CHAIN_UPDATED env' (snd (stop (snd (start env s)))))) \<and>
            timers (queueNextAssembly_resume env''
                      (length (suspended (snd (stop (snd (start env s))))))
                      (emit_CHAIN_UPDATED env' (snd (stop (snd (start env s)))))) \<noteq> [])"
proof -
  let ?s2 = "snd (stop (snd (start env s)))"
  from assms have l: "(nextFn s, ChainUpdated) \<in> set (listeners ?s2)" and r: "\<not> running ?s2"
    by (auto simp: start_def stop_def Let_def bind_fn_def on_CHAIN_UPDATED_def removeListener_def
          split: option.splits)
  have a: "consensusType env' \<noteq> ProofOfAuthority \<longrightarrow> timers (emit_CHAIN_UPDATED env' ?s2) \<noteq> []"
    using emit_queues(1) [OF l] by blast
  have b: "consensusType env' = ProofOfAuthority \<longrightarrow>
             length (suspended ?s2) < length (suspended (emit_CHAIN_UPDATED env' ?s2))"
    using emit_suspends [OF l] by blast
  have c: "consensusType env' = ProofOfAuthority \<longrightarrow>
             timers (queueNextAssembly_resume env'' (length (suspended ?s2))
                       (emit_CHAIN_UPDATED env' ?s2)) \<noteq> []"
    using b queueNextAssembly_resume_timers
            [of "length (suspended ?s2)" "emit_CHAIN_UPDATED env' ?s2" env'']
    by auto
  from l r a b c show ?thesis by blast
qed

theorem stop_leaves_listener_witness:
  "mine env_example \<and> \<not> running (Miner_new None) \<and>
   listeners (snd (stop (snd (start env_example (Miner_new None))))) = [(0, ChainUpdated)] \<and>
   consensusType env_example = ProofOfAuthority \<and>
   suspended (snd (stop (snd (start env_example (Miner_new None))))) = [15000] \<and>
   suspended (emit_CHAIN_UPDATED env_example (snd (stop (snd (start env_example (Miner_new None))))))
     = [15000, 5000] \<and>
   timers (queueNextAssembly_resume env_example 1
      (emit_CHAIN_UPDATED env_example (snd (stop (snd (start env_example (Miner_new None)))))))
     = [(0, 5000)]"
  using stop_leaves_listener [of env_example "Miner_new None" env_example env_example]
  by (simp add: miner_defs example_defs Let_def)

text \<open>
  C9, on the code: on a proof-of-authority chain two calls of \<open>queueNextAssembly\<close> that
  overlap leave two timers pending. \<open>start\<close> leaves its call suspended at the Clique
  query; an emission of \<open>CHAIN_UPDATED\<close> before that call resumes begins a second call,
  which finds no handle to clear and is suspended too; when the two calls resume, each
  sets a timer, and the miner holds the handle of the second only.
\<close>

theorem overlapping_calls_leave_two_timers:
  assumes "mine env" and "consensusType env = ProofOfAuthority"
    and "consensusType env' = ProofOfAuthority"
  shows "map fst (timers (run [Start env, EmitChainUpdated env',
                               ResumeQueueNextAssembly 0 env1, ResumeQueueNextAssembly 0 env2]
                              (Miner_new p))) = [0, 1] \<and>
         nextAssemblyTimeoutId (run [Start env, EmitChainUpdated env',
                               ResumeQueueNextAssembly 0 env1, ResumeQueueNextAssembly 0 env2]
                              (Miner_new p)) = Some 1"
  using assms
  by (simp add: run_def miner_defs Miner_new_def Let_def)

theorem overlapping_calls_leave_two_timers_witness:
  "mine env_example \<and> consensusType env_example = ProofOfAuthority \<and>
   timers (run [Start env_example, EmitChainUpdated env_example,
                ResumeQueueNextAssembly 0 env_example, ResumeQueueNextAssembly 0 env_example]
               (Miner_new None)) = [(0, 15000), (1, 5000)]"
  using overlapping_calls_leave_two_timers
    [of env_example env_example env_example env_example None]
  by (simp add: run_def miner_defs example_defs Let_def)

text \<open>
  C10, as the code has it. \<open>start\<close> returns false and leaves the state as it is when
  \<open>config.mine\<close> is false or the miner is running already. Otherwise it returns true,
  sets \<open>running\<close>, subscribes a new \<open>chainUpdated\<close> listener after the existing ones
  and calls \<open>queueNextAssembly\<close> without awaiting it. Off proof-of-authority the first
  assembly is scheduled when \<open>start\<close> returns, after the period, and the miner holds the
  handle of its timer. On a proof-of-authority chain \<open>start\<close> returns with that call
  suspended and no timer set; the timer is set, and its handle stored, when the call
  resumes.
\<close>

theorem start_guarded:
  "(\<not> mine env \<or> running s \<longrightarrow> start env s = (False, s)) \<and>
   (mine env \<and> \<not> running s \<longrightarrow>
      fst (start env s) = True \<and>
      running (snd (start env s)) \<and>
      listeners (snd (start env s)) = listeners s @ [(nextFn s, ChainUpdated)] \<and>
      (consensusType env \<noteq> ProofOfAuthority \<longrightarrow>
         (nextTimer s, of_int (period s)) \<in> set (timers (snd (start env s))) \<and>
         nextAssemblyTimeoutId (snd (start env s)) = Some (nextTimer s) \<and>
         suspended (snd (start env s)) = suspended s) \<and>
      (consensusType env = ProofOfAuthority \<longrightarrow>
         suspended (snd (start env s)) = suspended s @ [of_int (period s)] \<and>
         set (timers (snd (start env s))) \<subseteq> set (timers s) \<and>
         nextTimer (snd (start env s)) = nextTimer s \<and>
         nextAssemblyTimeoutId (snd (start env s)) = nextAssemblyTimeoutId s \<and>
         (\<exists>delay. (nextTimer s, delay) \<in>
              set (timers (queueNextAssembly_resume env' (length (suspended s))
                             (snd (start env s))))) \<and>
         nextAssemblyTimeoutId (queueNextAssembly_resume env' (length (suspended s))
                                  (snd (start env s))) = Some (nextTimer s)))"
  by (auto simp: start_def Let_def bind_fn_def on_CHAIN_UPDATED_def queueNextAssembly_def
        queueNextAssembly_resume_def setTimeout_def clearTimeout_def split: option.splits)

theorem start_guarded_witness:
  "mine env_example \<and> \<not> running (Miner_new None) \<and>
   consensusType env_example = ProofOfAuthority \<and>
   fst (start env_example (Miner_new None)) = True \<and>
   running (snd (start env_example (Miner_new None))) \<and>
   listeners (snd (start env_example (Miner_new None))) = [(0, ChainUpdated)] \<and>
   suspended (snd (start env_example (Miner_new None))) = [15000] \<and>
   nextAssemblyTimeoutId
     (queueNextAssembly_resume env_example 0 (snd (start env_example (Miner_new None)))) = Some 0 \<and>
   fst (start (env_example\<lparr>consensusType := ProofOfWork\<rparr>) (Miner_new None)) = True \<and>
   nextAssemblyTimeoutId (snd (start (env_example\<lparr>consensusType := ProofOfWork\<rparr>) (Miner_new None)))
     = Some 0 \<and>
   start (env_example\<lparr>mine := False\<rparr>) (Miner_new None) = (False, Miner_new None) \<and>
   start env_example (snd (start env_example (Miner_new None))) =
     (False, snd (start env_example (Miner_new None)))"
  using start_guarded [of env_example "Miner_new None" env_example]
    start_guarded [of "env_example\<lparr>consensusType := ProofOfWork\<rparr>" "Miner_new None" env_example]
    start_guarded [of "env_example\<lparr>mine := False\<rparr>" "Miner_new None" env_example]
    start_guarded [of env_example "snd (start env_example (Miner_new None))" env_example]
  by (simp add: example_defs)

text \<open>
  C10, as the claim states it, fails: on the proof-of-authority example \<open>start\<close> returns
  true and no assembly is scheduled in the state it returns.
\<close>

theorem start_returns_before_timer_counterexample:
  "fst (start env_example (Miner_new None)) = True \<and>
   timers (snd (start env_example (Miner_new None))) = [] \<and>
   nextAssemblyTimeoutId (snd (start env_example (Miner_new None))) = None"
  by (simp add: miner_defs example_defs Let_def)

end
